theory Spec2Isabelle
  imports Main "HOL-Library.Monad_Syntax" "HOL-Library.Word"
begin

section \<open>The doubly-linked list of Containers/LinkedList.h\<close>

text \<open>
  The C++ class keeps its nodes on the free store and links them with raw pointers, so
  the model keeps an explicit store: a pointer is an address or null, the store is the
  sequence of cells ever allocated, and a cell is either a live node or released.
  \<^verbatim>\<open>new\<close> takes the next unused address (the length of the store), so an address is
  never handed out twice; \<^verbatim>\<open>std::bad_alloc\<close> is outside the model.
  Reading or writing through a null pointer or a pointer to a released cell is
  undefined behaviour in C++; the model makes it the result \<open>None\<close> of the store
  primitives and the outcome \<open>Undefined\<close> of the member functions.
\<close>

subsection \<open>Nodes and the free store\<close>

type_synonym addr = nat

type_synonym ptr = "addr option"

record 'a Node =
  data :: 'a
  "next" :: ptr
  prev :: ptr

type_synonym 'a heap = "'a Node option list"

text \<open>\<^verbatim>\<open>*p\<close>: the node a pointer addresses, if it addresses a live one.\<close>

definition load :: "'a heap \<Rightarrow> ptr \<Rightarrow> 'a Node option" where
  "load h p = (case p of None \<Rightarrow> None | Some a \<Rightarrow> if a < length h then h ! a else None)"

text \<open>\<^verbatim>\<open>p->next = q\<close> and \<^verbatim>\<open>p->prev = q\<close>.\<close>

definition write_next :: "'a heap \<Rightarrow> ptr \<Rightarrow> ptr \<Rightarrow> 'a heap option" where
  "write_next h p q =
     (case p of None \<Rightarrow> None
      | Some a \<Rightarrow> (case load h p of None \<Rightarrow> None
                   | Some nd \<Rightarrow> Some (h[a := Some (nd\<lparr>next := q\<rparr>)])))"

definition write_prev :: "'a heap \<Rightarrow> ptr \<Rightarrow> ptr \<Rightarrow> 'a heap option" where
  "write_prev h p q =
     (case p of None \<Rightarrow> None
      | Some a \<Rightarrow> (case load h p of None \<Rightarrow> None
                   | Some nd \<Rightarrow> Some (h[a := Some (nd\<lparr>prev := q\<rparr>)])))"

text \<open>
  \<^verbatim>\<open>new Node(val)\<close>: the constructor sets \<^verbatim>\<open>next\<close> and \<^verbatim>\<open>prev\<close> to null.
\<close>

definition new_Node :: "'a \<Rightarrow> 'a heap \<Rightarrow> addr \<times> 'a heap" where
  "new_Node val h = (length h, h @ [Some \<lparr>data = val, next = None, prev = None\<rparr>])"

text \<open>The live cells of a store, and how many there are.\<close>

definition live :: "'a heap \<Rightarrow> addr set" where
  "live h = {a. a < length h \<and> h ! a \<noteq> None}"

definition live_count :: "'a heap \<Rightarrow> nat" where
  "live_count h = length (filter (\<lambda>c. c \<noteq> None) h)"

text \<open>
  \<^verbatim>\<open>delete p\<close>. Deleting null does nothing. Otherwise the destructor
  \<^verbatim>\<open>~Node() { delete next; next = nullptr; }\<close> runs and the cell is released.
  The lifetime of a node ends when its destructor starts, so the cell leaves the live
  store before \<^verbatim>\<open>delete next\<close> runs, and a chain that leads back to a node being
  destroyed is undefined behaviour like any other use of a dead node.
  The second component of the result counts the destructor calls that are nested
  inside one another, which is the depth the call stack reaches.
\<close>

function delete_node :: "ptr \<Rightarrow> 'a heap \<Rightarrow> ('a heap \<times> nat) option" where
  "delete_node p h =
     (case p of None \<Rightarrow> Some (h, 0)
      | Some a \<Rightarrow>
          (case load h (Some a) of None \<Rightarrow> None
           | Some nd \<Rightarrow>
               (case delete_node (next nd) (h[a := None]) of None \<Rightarrow> None
                | Some (h', d) \<Rightarrow> Some (h', Suc d))))"
  by pat_completeness auto
termination
proof (relation "measure (\<lambda>(p, h). live_count h)")
  show "wf (measure (\<lambda>(p, h). live_count h))" by simp
next
  fix p :: ptr and h :: "'a heap" and a nd
  assume "p = Some a" and "load h (Some a) = Some nd"
  then have "a < length h" and "h ! a \<noteq> None"
    by (auto simp: load_def split: if_splits)
  then have "live_count (h[a := None]) < live_count h"
  proof (induction h arbitrary: a)
    case Nil
    then show ?case by simp
  next
    case (Cons c h)
    show ?case
    proof (cases a)
      case 0
      with Cons.prems show ?thesis by (simp add: live_count_def)
    next
      case (Suc b)
      with Cons.prems have "live_count (h[b := None]) < live_count h"
        by (intro Cons.IH) simp_all
      with Suc show ?thesis by (simp add: live_count_def)
    qed
  qed
  then show "((next nd, h[a := None]), (p, h)) \<in> measure (\<lambda>(p, h). live_count h)"
    by simp
qed

declare delete_node.simps [simp del]

subsection \<open>The list\<close>

text \<open>
  The members \<^verbatim>\<open>head\<close>, \<^verbatim>\<open>tail\<close> and \<^verbatim>\<open>count\<close> of the class, together with the
  free store its nodes live on. \<^verbatim>\<open>count\<close> is a C++ \<^verbatim>\<open>int\<close>, 32 bits wide: the model
  keeps it as a 32-bit word, so that \<^verbatim>\<open>count++\<close> at \<^verbatim>\<open>INT_MAX\<close> wraps to \<^verbatim>\<open>INT_MIN\<close> as
  the compiled code does, and reads it as a signed number (\<open>count_value\<close>).
\<close>

record 'a LinkedList =
  head :: ptr
  tail :: ptr
  count :: "32 word"
  store :: "'a heap"

text \<open>
  The error of the class is \<^verbatim>\<open>std::runtime_error\<close> with a message; the specification
  calls it EmptyContainer.
\<close>

datatype exn = runtime_error string

text \<open>
  What a member function does: it returns a value and leaves a state, or it throws and
  leaves a state, or its behaviour is undefined.
\<close>

datatype ('v, 's) outcome = Return 'v 's | Raise exn 's | Undefined

definition LinkedList_new :: "'a LinkedList" where
  "LinkedList_new = \<lparr>head = None, tail = None, count = 0, store = []\<rparr>"

text \<open>
  \<^verbatim>\<open>size()\<close> returns the \<^verbatim>\<open>int\<close> counter as \<^verbatim>\<open>std::size_t\<close>: the conversion keeps a
  counter that is not negative and adds \<open>2 ^ 64\<close> to a negative one.
\<close>

definition count_value :: "'a LinkedList \<Rightarrow> int" where
  "count_value l = sint (count l)"

definition size_ll :: "'a LinkedList \<Rightarrow> nat" where
  "size_ll l = nat (if 0 \<le> count_value l then count_value l else 2 ^ 64 + count_value l)"

definition empty_ll :: "'a LinkedList \<Rightarrow> bool" where
  "empty_ll l = (head l = None)"

definition front :: "'a LinkedList \<Rightarrow> ('a, 'a LinkedList) outcome" where
  "front l =
     (if head l = None then Raise (runtime_error ''list is empty'') l
      else case load (store l) (head l) of None \<Rightarrow> Undefined | Some nd \<Rightarrow> Return (data nd) l)"

definition back_ll :: "'a LinkedList \<Rightarrow> ('a, 'a LinkedList) outcome" where
  "back_ll l =
     (if tail l = None then Raise (runtime_error ''list is empty'') l
      else case load (store l) (tail l) of None \<Rightarrow> Undefined | Some nd \<Rightarrow> Return (data nd) l)"

text \<open>
  \<^verbatim>\<open>addAfter\<close> and \<^verbatim>\<open>addBefore\<close>, statement by statement; every field is read from
  the store as it is at that statement.
\<close>

definition addAfter :: "ptr \<Rightarrow> 'a \<Rightarrow> 'a LinkedList \<Rightarrow> (unit, 'a LinkedList) outcome" where
  "addAfter node val l =
     (case new_Node val (store l) of (n, h0) \<Rightarrow>
        let newNode = Some n in
        (case
           (if node \<noteq> None then
              do {
                h1 \<leftarrow> write_prev h0 newNode node;
                nd \<leftarrow> load h1 node;
                h2 \<leftarrow> write_next h1 newNode (next nd);
                h3 \<leftarrow> write_next h2 node newNode;
                nn \<leftarrow> load h3 newNode;
                if next nn \<noteq> None then
                  do {
                    h4 \<leftarrow> write_prev h3 (next nn) newNode;
                    Some (l\<lparr>store := h4\<rparr>)
                  }
                else Some (l\<lparr>store := h3, tail := newNode\<rparr>)
              }
            else Some (l\<lparr>store := h0, head := newNode, tail := newNode\<rparr>))
         of None \<Rightarrow> Undefined
          | Some l' \<Rightarrow> Return () (l'\<lparr>count := count l' + 1\<rparr>)))"

definition addBefore :: "ptr \<Rightarrow> 'a \<Rightarrow> 'a LinkedList \<Rightarrow> (unit, 'a LinkedList) outcome" where
  "addBefore node val l =
     (case new_Node val (store l) of (n, h0) \<Rightarrow>
        let newNode = Some n in
        (case
           (if node \<noteq> None then
              do {
                h1 \<leftarrow> write_next h0 newNode node;
                nd \<leftarrow> load h1 node;
                h2 \<leftarrow> write_prev h1 newNode (prev nd);
                h3 \<leftarrow> write_prev h2 node newNode;
                nn \<leftarrow> load h3 newNode;
                if prev nn \<noteq> None then
                  do {
                    h4 \<leftarrow> write_next h3 (prev nn) newNode;
                    Some (l\<lparr>store := h4\<rparr>)
                  }
                else Some (l\<lparr>store := h3, head := newNode\<rparr>)
              }
            else Some (l\<lparr>store := h0, head := newNode, tail := newNode\<rparr>))
         of None \<Rightarrow> Undefined
          | Some l' \<Rightarrow> Return () (l'\<lparr>count := count l' + 1\<rparr>)))"

text \<open>
  \<^verbatim>\<open>removeNode\<close>. The emptiness test comes first and throws before anything is
  touched. The node's links are cleared before \<^verbatim>\<open>delete node\<close>, so that its
  destructor finds no successor to delete.
\<close>

definition removeNode :: "ptr \<Rightarrow> 'a LinkedList \<Rightarrow> ('a, 'a LinkedList) outcome" where
  "removeNode node l =
     (if head l = None then Raise (runtime_error ''cannot remove from empty list'') l
      else
        (case
           do {
             nd \<leftarrow> load (store l) node;
             let val = data nd;
             l1 \<leftarrow> (if next nd \<noteq> None then
                      do {
                        h \<leftarrow> write_prev (store l) (next nd) (prev nd);
                        Some (l\<lparr>store := h\<rparr>)
                      }
                    else Some (l\<lparr>tail := prev nd\<rparr>));
             nd1 \<leftarrow> load (store l1) node;
             l2 \<leftarrow> (if prev nd1 \<noteq> None then
                      do {
                        h \<leftarrow> write_next (store l1) (prev nd1) (next nd1);
                        Some (l1\<lparr>store := h\<rparr>)
                      }
                    else Some (l1\<lparr>head := next nd1\<rparr>));
             h3 \<leftarrow> write_next (store l2) node None;
             h4 \<leftarrow> write_prev h3 node None;
             (h5, d) \<leftarrow> delete_node node h4;
             Some (val, l2\<lparr>store := h5, count := count l2 - 1\<rparr>)
           }
         of None \<Rightarrow> Undefined
          | Some (val, l') \<Rightarrow> Return val l'))"

definition push_front :: "'a \<Rightarrow> 'a LinkedList \<Rightarrow> (unit, 'a LinkedList) outcome" where
  "push_front val l = addBefore (head l) val l"

definition push_back :: "'a \<Rightarrow> 'a LinkedList \<Rightarrow> (unit, 'a LinkedList) outcome" where
  "push_back val l = addAfter (tail l) val l"

definition pop_front :: "'a LinkedList \<Rightarrow> ('a, 'a LinkedList) outcome" where
  "pop_front l = removeNode (head l) l"

definition pop_back :: "'a LinkedList \<Rightarrow> ('a, 'a LinkedList) outcome" where
  "pop_back l = removeNode (tail l) l"

text \<open>
  \<^verbatim>\<open>clear()\<close> is \<^verbatim>\<open>delete head; head = nullptr; tail = nullptr; count = 0;\<close>.
  \<open>clear_depth\<close> is the depth of nested destructor calls that \<^verbatim>\<open>delete head\<close>
  reaches.
\<close>

definition clear :: "'a LinkedList \<Rightarrow> (unit, 'a LinkedList) outcome" where
  "clear l =
     (case delete_node (head l) (store l) of None \<Rightarrow> Undefined
      | Some (h, d) \<Rightarrow> Return () (l\<lparr>store := h, head := None, tail := None, count := 0\<rparr>))"

definition clear_depth :: "'a LinkedList \<Rightarrow> nat option" where
  "clear_depth l = map_option snd (delete_node (head l) (store l))"

subsection \<open>Iterators\<close>

text \<open>
  Modelled from the spec: the iterator class of Containers/LinkedListIterator.h, which
  is not among the sources. The specification has an iterator hold a reference to the
  node it addresses, or a null value for the sentinel (past the end, and before the
  beginning); it does not own the node.
\<close>

datatype iterator = Iter ptr

text \<open>
  Modelled from the spec: the iterator's \<^verbatim>\<open>operator==\<close>, absent with the header. Two
  iterators are equal iff both are the sentinel or both address the same node.
\<close>

fun it_eq :: "iterator \<Rightarrow> iterator \<Rightarrow> bool" where
  "it_eq (Iter None) (Iter q) = (q = None)"
| "it_eq (Iter (Some a)) (Iter q) = (q = Some a)"

text \<open>
  Modelled from the spec: the iterator's \<^verbatim>\<open>operator*\<close>, absent with the header. A valid
  iterator yields the value of the node it addresses; dereferencing the sentinel is
  undefined behaviour or an error in the specification, here no result.
\<close>

fun it_deref :: "'a heap \<Rightarrow> iterator \<Rightarrow> 'a option" where
  "it_deref h (Iter p) = (case load h p of None \<Rightarrow> None | Some nd \<Rightarrow> Some (data nd))"

text \<open>
  Modelled from the spec: the iterator's \<^verbatim>\<open>operator++\<close> and \<^verbatim>\<open>operator--\<close>, absent with
  the header. A valid iterator moves to the \<^verbatim>\<open>next\<close>, respectively the \<^verbatim>\<open>prev\<close>, of the
  node it addresses, which may be the sentinel. The specification leaves open whether
  stepping the sentinel is an error or does nothing; here it has no result.
\<close>

fun it_inc :: "'a heap \<Rightarrow> iterator \<Rightarrow> iterator option" where
  "it_inc h (Iter p) = (case load h p of None \<Rightarrow> None | Some nd \<Rightarrow> Some (Iter (next nd)))"

fun it_dec :: "'a heap \<Rightarrow> iterator \<Rightarrow> iterator option" where
  "it_dec h (Iter p) = (case load h p of None \<Rightarrow> None | Some nd \<Rightarrow> Some (Iter (prev nd)))"

text \<open>The four factories are in LinkedList.h: they wrap \<^verbatim>\<open>head\<close>, \<^verbatim>\<open>tail\<close> or null.\<close>

definition begin_it :: "'a LinkedList \<Rightarrow> iterator" where
  "begin_it l = Iter (head l)"

definition end_it :: "'a LinkedList \<Rightarrow> iterator" where
  "end_it l = Iter None"

definition rbegin :: "'a LinkedList \<Rightarrow> iterator" where
  "rbegin l = Iter (tail l)"

definition rend :: "'a LinkedList \<Rightarrow> iterator" where
  "rend l = Iter None"

text \<open>
  A traversal is the caller's loop
  \<^verbatim>\<open>for (it = first; it != stop; step(it)) visit(*it);\<close>
  with \<^verbatim>\<open>++it\<close> or \<^verbatim>\<open>--it\<close> as the step, collecting the values it visits. On a chain
  that runs in a circle it never ends, so the loop is a partial function: the outer
  \<open>None\<close> is a loop that does not return, the inner \<open>None\<close> a loop that dereferences
  or steps an iterator with no result.
\<close>

partial_function (option) traverse ::
  "('a heap \<Rightarrow> iterator \<Rightarrow> iterator option) \<Rightarrow> 'a heap \<Rightarrow> iterator \<Rightarrow> iterator \<Rightarrow> 'a list
     \<Rightarrow> 'a list option option" where
  "traverse step h it stop visited =
     (if it_eq it stop then Some (Some visited)
      else case it_deref h it of None \<Rightarrow> Some None
           | Some v \<Rightarrow> (case step h it of None \<Rightarrow> Some None
                        | Some it' \<Rightarrow> traverse step h it' stop (visited @ [v])))"

definition forward_traversal :: "'a LinkedList \<Rightarrow> 'a list option option" where
  "forward_traversal l = traverse it_inc (store l) (begin_it l) (end_it l) []"

definition backward_traversal :: "'a LinkedList \<Rightarrow> 'a list option option" where
  "backward_traversal l = traverse it_dec (store l) (rbegin l) (rend l) []"

subsection \<open>Sequences of operations and reachable states\<close>

datatype 'a operation = Push_front 'a | Push_back 'a | Pop_front | Pop_back | Clear

fun discard :: "('v, 's) outcome \<Rightarrow> (unit, 's) outcome" where
  "discard (Return v s) = Return () s"
| "discard (Raise e s) = Raise e s"
| "discard Undefined = Undefined"

fun apply_op :: "'a operation \<Rightarrow> 'a LinkedList \<Rightarrow> (unit, 'a LinkedList) outcome" where
  "apply_op (Push_front v) l = push_front v l"
| "apply_op (Push_back v) l = push_back v l"
| "apply_op Pop_front l = discard (pop_front l)"
| "apply_op Pop_back l = discard (pop_back l)"
| "apply_op Clear l = clear l"


fun result :: "('v, 's) outcome \<Rightarrow> (exn + 'v) option" where
  "result (Return v s) = Some (Inr v)"
| "result (Raise e s) = Some (Inl e)"
| "result Undefined = None"

text \<open>Everything the public queries tell about a list.\<close>

definition observe ::
  "'a LinkedList \<Rightarrow>
     nat \<times> bool \<times> 'a list option option \<times> 'a list option option \<times> (exn + 'a) option \<times> (exn + 'a) option" where
  "observe l =
     (size_ll l, empty_ll l, forward_traversal l, backward_traversal l,
      result (front l), result (back_ll l))"

text \<open>A caller running operations one after another; an exception ends the run.\<close>

fun run :: "'a operation list \<Rightarrow> 'a LinkedList \<Rightarrow> (unit, 'a LinkedList) outcome" where
  "run [] l = Return () l"
| "run (x # xs) l =
     (case apply_op x l of Return u l' \<Rightarrow> run xs l' | Raise e l' \<Rightarrow> Raise e l'
      | Undefined \<Rightarrow> Undefined)"

text \<open>
  The states a caller can bring a list to: from the constructor, by the public
  operations. An operation that throws leaves a state too, which the caller can go on
  with after catching the exception.
\<close>

inductive reachable :: "'a LinkedList \<Rightarrow> bool" where
  reachable_new: "reachable LinkedList_new"
| reachable_return: "reachable l \<Longrightarrow> apply_op x l = Return u l' \<Longrightarrow> reachable l'"
| reachable_raise: "reachable l \<Longrightarrow> apply_op x l = Raise e l' \<Longrightarrow> reachable l'"

text \<open>
  What the operations mean on the sequence of values: the sequence after a run that
  starts from \<open>vs\<close>, the number of pushes and of pops in a run, and whether a run never
  pops from an empty sequence.
\<close>

fun effect :: "'a operation \<Rightarrow> 'a list \<Rightarrow> 'a list" where
  "effect (Push_front v) vs = v # vs"
| "effect (Push_back v) vs = vs @ [v]"
| "effect Pop_front vs = tl vs"
| "effect Pop_back vs = butlast vs"
| "effect Clear vs = []"



fun is_pop :: "'a operation \<Rightarrow> bool" where
  "is_pop Pop_front = True"
| "is_pop Pop_back = True"
| "is_pop x = False"







subsection \<open>The shape of a well-formed list\<close>

text \<open>
  \<open>seg f h p as q\<close>: following the link \<open>f\<close> from \<open>p\<close> visits the live nodes at the
  addresses \<open>as\<close>, in this order, and then arrives at \<open>q\<close>.
\<close>

fun seg :: "('a Node \<Rightarrow> ptr) \<Rightarrow> 'a heap \<Rightarrow> ptr \<Rightarrow> addr list \<Rightarrow> ptr \<Rightarrow> bool" where
  "seg f h p [] q = (p = q)"
| "seg f h p (a # as) q =
     (p = Some a \<and> (case load h (Some a) of None \<Rightarrow> False | Some nd \<Rightarrow> seg f h (f nd) as q))"

definition datum :: "'a heap \<Rightarrow> addr \<Rightarrow> 'a option" where
  "datum h a = map_option data (load h (Some a))"

text \<open>
  \<open>linked l as\<close>: the nodes of the list are those at \<open>as\<close>, from head to tail, linked in
  both directions, counted by \<^verbatim>\<open>count\<close> modulo \<open>2 ^ 32\<close>, and they are all the live
  nodes.
  \<open>repr l as vs\<close>: moreover they hold the values \<open>vs\<close>.
\<close>

definition linked :: "'a LinkedList \<Rightarrow> addr list \<Rightarrow> bool" where
  "linked l as =
     (seg next (store l) (head l) as None \<and> seg prev (store l) (tail l) (rev as) None \<and>
      distinct as \<and> count l = of_nat (length as) \<and> live (store l) = set as)"

definition repr :: "'a LinkedList \<Rightarrow> addr list \<Rightarrow> 'a list \<Rightarrow> bool" where
  "repr l as vs = (linked l as \<and> map (datum (store l)) as = map Some vs)"

subsection \<open>Example lists\<close>

text \<open>
  The list after \<^verbatim>\<open>push_back(10); push_back(20)\<close> on a new list, and the list after
  \<^verbatim>\<open>push_back(1); push_back(2); push_back(3)\<close>, written out; \<open>run_two_list\<close> and
  \<open>run_three_list\<close> below show that the operations produce them.
\<close>

definition two_list :: "nat LinkedList" where
  "two_list =
     \<lparr>head = Some 0, tail = Some 1, count = 2,
      store = [Some \<lparr>data = 10, next = Some 1, prev = None\<rparr>,
               Some \<lparr>data = 20, next = None, prev = Some 0\<rparr>]\<rparr>"

definition three_list :: "nat LinkedList" where
  "three_list =
     \<lparr>head = Some 0, tail = Some 2, count = 3,
      store = [Some \<lparr>data = 1, next = Some 1, prev = None\<rparr>,
               Some \<lparr>data = 2, next = Some 2, prev = Some 0\<rparr>,
               Some \<lparr>data = 3, next = None, prev = Some 1\<rparr>]\<rparr>"

section \<open>Properties\<close>

subsection \<open>The store and paths through it\<close>

lemma load_None [simp]: "load h None = None"
  by (simp add: load_def)

lemma load_update: "load (h[a := x]) (Some b) = (if a = b \<and> a < length h then x else load h (Some b))"
  by (simp add: load_def)

lemma load_append1: "load (h @ [x]) (Some b) = (if b = length h then x else load h (Some b))"
  by (auto simp: load_def nth_append)

lemma load_bound: "load h (Some a) = Some nd \<Longrightarrow> a < length h"
  by (simp add: load_def split: if_splits)

lemma live_load: "live h = {a. load h (Some a) \<noteq> None}"
  by (auto simp: live_def load_def)

lemma seg_cong:
  "(\<And>a. a \<in> set as \<Longrightarrow> map_option f (load h' (Some a)) = map_option f (load h (Some a))) \<Longrightarrow>
   seg f h' p as q = seg f h p as q"
proof (induction as arbitrary: p)
  case Nil
  show ?case by simp
next
  case (Cons a as)
  have eq: "map_option f (load h' (Some a)) = map_option f (load h (Some a))"
    by (rule Cons.prems) simp
  have IH: "\<And>r. seg f h' r as q = seg f h r as q"
    by (rule Cons.IH) (simp add: Cons.prems)
  from eq show ?case
    by (cases "load h' (Some a)"; cases "load h (Some a)") (simp_all add: IH)
qed

lemma seg_append:
  "seg f h p (as @ bs) q = (\<exists>r. seg f h p as r \<and> seg f h r bs q)"
  by (induction as arbitrary: p) (auto split: option.splits)

lemma seg_live: "seg f h p as q \<Longrightarrow> a \<in> set as \<Longrightarrow> load h (Some a) \<noteq> None"
  by (induction as arbitrary: p) (auto split: option.splits)

lemma seg_snoc:
  "seg f h p (as @ [a]) q = (seg f h p as (Some a) \<and> (\<exists>nd. load h (Some a) = Some nd \<and> f nd = q))"
  by (auto simp: seg_append split: option.splits)


lemma addAfter_null:
  "addAfter None v l =
     Return () (l\<lparr>store := store l @ [Some \<lparr>data = v, next = None, prev = None\<rparr>],
                  head := Some (length (store l)), tail := Some (length (store l)),
                  count := count l + 1\<rparr>)"
  by (simp add: addAfter_def new_Node_def Let_def)

lemma addAfter_last:
  assumes "load (store l) (Some t) = Some nd" and "next nd = None"
  shows "addAfter (Some t) v l =
     Return () (l\<lparr>store := (store l @ [Some \<lparr>data = v, next = None, prev = Some t\<rparr>])
                              [t := Some (nd\<lparr>next := Some (length (store l))\<rparr>)],
                  tail := Some (length (store l)), count := count l + 1\<rparr>)"
proof -
  from assms(1) have "t < length (store l)" by (rule load_bound)
  with assms show ?thesis
    by (simp add: addAfter_def new_Node_def Let_def write_prev_def write_next_def
        load_append1 load_update)
qed

lemma push_back_repr:
  assumes "repr l as vs"
  shows "\<exists>l'. push_back v l = Return () l' \<and> repr l' (as @ [length (store l)]) (vs @ [v])"
proof (cases as rule: rev_cases)
  case Nil
  with assms show ?thesis
    by (auto simp: repr_def linked_def push_back_def addAfter_null load_append1 live_load datum_def)
next
  case (snoc bs t)
  let ?n = "length (store l)"
  from assms snoc have tl: "tail l = Some t"
    and sn: "seg next (store l) (head l) (bs @ [t]) None"
    and sp: "seg prev (store l) (tail l) (t # rev bs) None"
    and d: "distinct (bs @ [t])" and c: "count l = of_nat (length as)" 
    and lv: "live (store l) = set as" and vs: "map (datum (store l)) as = map Some vs"
    by (auto simp: repr_def linked_def)
  from sn obtain nd where nd: "load (store l) (Some t) = Some nd" "next nd = None"
    by (auto simp: seg_snoc)
  have fresh: "?n \<notin> set as" using lv by (auto simp: live_def)
  have tn: "t \<noteq> ?n" using nd(1) load_bound by fastforce
  define h' where "h' = (store l @ [Some \<lparr>data = v, next = None, prev = Some t\<rparr>])
                              [t := Some (nd\<lparr>next := Some ?n\<rparr>)]"
  define l' where "l' = l\<lparr>store := h', tail := Some ?n, count := count l + 1\<rparr>"
  have res: "push_back v l = Return () l'"
    using addAfter_last [OF nd] by (simp add: push_back_def tl l'_def h'_def)
  have ld: "\<And>b. load h' (Some b) = (if b = t then Some (nd\<lparr>next := Some ?n\<rparr>)
         else if b = ?n then Some \<lparr>data = v, next = None, prev = Some t\<rparr> else load (store l) (Some b))"
    using tn load_bound [OF nd(1)] by (auto simp: h'_def load_update load_append1)
  have nb: "t \<notin> set bs" "?n \<notin> set bs" using d fresh snoc by auto
  have "seg next (store l) (head l) bs (Some t)" using sn by (simp add: seg_snoc)
  then have "seg next h' (head l) bs (Some t)"
    using nb by (subst seg_cong [where h = "store l"]) (auto simp: ld)
  then have n1: "seg next h' (head l) (as @ [?n]) None"
    using tn by (auto simp: snoc seg_append ld)
  have "seg prev h' (Some t) (rev as) None"
    using sp tl fresh snoc by (subst seg_cong [where h = "store l"]) (auto simp: ld nd)
  then have n2: "seg prev h' (Some ?n) (rev (as @ [?n])) None"
    by (simp add: ld tn [symmetric])
  have n3: "live h' = set (as @ [?n])"
    using lv nd(1) snoc by (auto simp: live_load ld)
  have "map (datum h') as = map (datum (store l)) as"
    using fresh nd(1) by (auto simp: datum_def ld)
  then have n4: "map (datum h') (as @ [?n]) = map Some (vs @ [v])"
    using vs tn by (simp add: datum_def ld)
  have sel: "store l' = h'" "head l' = head l" "tail l' = Some ?n" "count l' = count l + 1"
    by (simp_all add: l'_def)
  have "distinct (as @ [?n])" using d fresh snoc by simp
  moreover have "count l' = of_nat (length (as @ [?n]))" using c sel by simp
  ultimately have "repr l' (as @ [?n]) (vs @ [v])"
    unfolding repr_def linked_def sel using n1 n2 n3 n4 by blast
  with res show ?thesis by blast
qed


lemma addBefore_null:
  "addBefore None v l =
     Return () (l\<lparr>store := store l @ [Some \<lparr>data = v, next = None, prev = None\<rparr>],
                  head := Some (length (store l)), tail := Some (length (store l)),
                  count := count l + 1\<rparr>)"
  by (simp add: addBefore_def new_Node_def Let_def)

lemma addBefore_first:
  assumes "load (store l) (Some t) = Some nd" and "prev nd = None"
  shows "addBefore (Some t) v l =
     Return () (l\<lparr>store := (store l @ [Some \<lparr>data = v, next = Some t, prev = None\<rparr>])
                              [t := Some (nd\<lparr>prev := Some (length (store l))\<rparr>)],
                  head := Some (length (store l)), count := count l + 1\<rparr>)"
proof -
  from assms(1) have "t < length (store l)" by (rule load_bound)
  with assms show ?thesis
    by (simp add: addBefore_def new_Node_def Let_def write_prev_def write_next_def
        load_append1 load_update)
qed

lemma delete_node_single:
  assumes "load h (Some a) = Some nd" and "next nd = None"
  shows "delete_node (Some a) h = Some (h[a := None], Suc 0)"
  using assms by (simp add: delete_node.simps [of "Some a"] delete_node.simps [of None])

lemma removeNode_only:
  assumes "head l \<noteq> None" and "load (store l) (Some a) = Some nd"
    and "next nd = None" and "prev nd = None"
  shows "removeNode (Some a) l =
     Return (data nd) (l\<lparr>head := None, tail := None, store := (store l)[a := None],
                         count := count l - 1\<rparr>)"
proof -
  from assms(2) have "a < length (store l)" by (rule load_bound)
  with assms show ?thesis
    by (simp add: removeNode_def write_prev_def write_next_def load_update delete_node_single)
qed

lemma removeNode_first:
  assumes "head l \<noteq> None" and "load (store l) (Some a) = Some nd"
    and "prev nd = None" and "next nd = Some b" and "load (store l) (Some b) = Some nb"
    and "a \<noteq> b"
  shows "removeNode (Some a) l =
     Return (data nd) (l\<lparr>head := Some b,
                         store := (store l)[b := Some (nb\<lparr>prev := None\<rparr>), a := None],
                         count := count l - 1\<rparr>)"
proof -
  from assms have "a < length (store l)" "b < length (store l)" by (auto dest: load_bound)
  with assms show ?thesis
    by (simp add: removeNode_def write_prev_def write_next_def load_update delete_node_single)
qed

lemma removeNode_last:
  assumes "head l \<noteq> None" and "load (store l) (Some a) = Some nd"
    and "next nd = None" and "prev nd = Some b" and "load (store l) (Some b) = Some nb"
    and "a \<noteq> b"
  shows "removeNode (Some a) l =
     Return (data nd) (l\<lparr>tail := Some b,
                         store := (store l)[b := Some (nb\<lparr>next := None\<rparr>), a := None],
                         count := count l - 1\<rparr>)"
proof -
  from assms have "a < length (store l)" "b < length (store l)" by (auto dest: load_bound)
  with assms show ?thesis
    by (simp add: removeNode_def write_prev_def write_next_def load_update delete_node_single)
qed


lemma push_front_repr:
  assumes "repr l as vs"
  shows "\<exists>l'. push_front v l = Return () l' \<and> repr l' (length (store l) # as) (v # vs)"
proof (cases as)
  case Nil
  with assms show ?thesis
    by (auto simp: repr_def linked_def push_front_def addBefore_null load_append1 live_load datum_def)
next
  case (Cons t bs)
  let ?n = "length (store l)"
  from assms Cons have hd: "head l = Some t"
    and sn: "seg next (store l) (head l) (t # bs) None"
    and sp: "seg prev (store l) (tail l) (rev bs @ [t]) None"
    and d: "distinct (t # bs)" and c: "count l = of_nat (length as)" 
    and lv: "live (store l) = set as" and vs: "map (datum (store l)) as = map Some vs"
    by (auto simp: repr_def linked_def)
  from sp obtain nd where nd: "load (store l) (Some t) = Some nd" "prev nd = None"
    by (auto simp: seg_snoc)
  have fresh: "?n \<notin> set as" using lv by (auto simp: live_def)
  have tn: "t \<noteq> ?n" using nd(1) load_bound by fastforce
  define h' where "h' = (store l @ [Some \<lparr>data = v, next = Some t, prev = None\<rparr>])
                              [t := Some (nd\<lparr>prev := Some ?n\<rparr>)]"
  define l' where "l' = l\<lparr>store := h', head := Some ?n, count := count l + 1\<rparr>"
  have res: "push_front v l = Return () l'"
    using addBefore_first [OF nd] by (simp add: push_front_def hd l'_def h'_def)
  have ld: "\<And>b. load h' (Some b) = (if b = t then Some (nd\<lparr>prev := Some ?n\<rparr>)
         else if b = ?n then Some \<lparr>data = v, next = Some t, prev = None\<rparr> else load (store l) (Some b))"
    using tn load_bound [OF nd(1)] by (auto simp: h'_def load_update load_append1)
  have nb: "t \<notin> set bs" "?n \<notin> set bs" using d fresh Cons by auto
  have "seg prev (store l) (tail l) (rev bs) (Some t)" using sp by (simp add: seg_snoc)
  then have "seg prev h' (tail l) (rev bs) (Some t)"
    using nb by (subst seg_cong [where h = "store l"]) (auto simp: ld)
  then have n1: "seg prev h' (tail l) (rev (?n # as)) None"
    using tn by (auto simp: Cons seg_append ld)
  have "seg next h' (Some t) as None"
    using sn hd fresh Cons by (subst seg_cong [where h = "store l"]) (auto simp: ld nd)
  then have n2: "seg next h' (Some ?n) (?n # as) None"
    by (simp add: ld tn [symmetric])
  have n3: "live h' = set (?n # as)"
    using lv nd(1) Cons by (auto simp: live_load ld)
  have "map (datum h') as = map (datum (store l)) as"
    using fresh nd(1) by (auto simp: datum_def ld)
  then have n4: "map (datum h') (?n # as) = map Some (v # vs)"
    using vs tn by (simp add: datum_def ld)
  have sel: "store l' = h'" "head l' = Some ?n" "tail l' = tail l" "count l' = count l + 1"
    by (simp_all add: l'_def)
  have "distinct (?n # as)" using d fresh Cons by simp
  moreover have "count l' = of_nat (length (?n # as))" using c sel by simp
  ultimately have "repr l' (?n # as) (v # vs)"
    unfolding repr_def linked_def sel using n1 n2 n3 n4 by blast
  with res show ?thesis by blast
qed


lemma live_release: "live (h[a := None]) = live h - {a}"
  by (auto simp: live_load load_update dest: load_bound)

lemma pop_front_repr:
  assumes "repr l (a # as) (v # vs)"
  shows "\<exists>l'. pop_front l = Return v l' \<and> repr l' as vs"
proof -
  from assms have hd: "head l = Some a"
    and sn: "seg next (store l) (head l) (a # as) None"
    and sp: "seg prev (store l) (tail l) (rev as @ [a]) None"
    and d: "distinct (a # as)" and c: "count l = of_nat (length (a # as))" 
    and lv: "live (store l) = set (a # as)"
    and vs: "map (datum (store l)) (a # as) = map Some (v # vs)"
    by (auto simp: repr_def linked_def)
  from sp obtain nd where nd: "load (store l) (Some a) = Some nd" "prev nd = None"
    by (auto simp: seg_snoc)
  from vs nd have v: "data nd = v" by (simp add: datum_def)
  from hd have hn: "head l \<noteq> None" by simp
  show ?thesis
  proof (cases as)
    case Nil
    with sn nd have nx: "next nd = None" by simp
    define l' where "l' = l\<lparr>head := None, tail := None, store := (store l)[a := None],
                         count := count l - 1\<rparr>"
    have res: "pop_front l = Return v l'"
      using removeNode_only [OF hn nd(1) nx nd(2)] hd v by (simp add: pop_front_def l'_def)
    have "repr l' [] []"
      using lv c Nil by (simp add: repr_def linked_def l'_def live_release)
    with res Nil vs show ?thesis by auto
  next
    case (Cons b cs)
    with sn nd have nx: "next nd = Some b" by (simp split: option.splits)
    from sn Cons obtain nb where nb: "load (store l) (Some b) = Some nb"
      by (auto split: option.splits)
    from d Cons have ab: "a \<noteq> b" by auto
    define h' where "h' = (store l)[b := Some (nb\<lparr>prev := None\<rparr>), a := None]"
    define l' where "l' = l\<lparr>head := Some b, store := h', count := count l - 1\<rparr>"
    have res: "pop_front l = Return v l'"
      using removeNode_first [OF hn nd(1) nd(2) nx nb ab] hd v
      by (simp add: pop_front_def l'_def h'_def)
    have ld: "\<And>c. load h' (Some c) = (if c = a then None
         else if c = b then Some (nb\<lparr>prev := None\<rparr>) else load (store l) (Some c))"
      using ab load_bound [OF nd(1)] load_bound [OF nb]
      by (auto simp: h'_def load_update)
    have na: "a \<notin> set as" "b \<notin> set cs" using d Cons by auto
    have "seg next (store l) (Some b) as None"
      using sn nd nx by simp
    then have n1: "seg next h' (Some b) as None"
      using na by (subst seg_cong [where h = "store l"]) (auto simp: ld nb)
    have "seg prev (store l) (tail l) (rev cs) (Some b)"
      using sp Cons by (auto simp: seg_append split: option.splits)
    then have "seg prev h' (tail l) (rev cs) (Some b)"
      using na Cons by (subst seg_cong [where h = "store l"]) (auto simp: ld)
    then have n2: "seg prev h' (tail l) (rev as) None"
      using ab by (auto simp: Cons seg_append ld)
    have n3: "live h' = set as"
      using lv na nb Cons by (auto simp: live_load ld)
    have "map (datum h') as = map (datum (store l)) as"
      using na nb by (auto simp: datum_def ld)
    moreover have "map (datum (store l)) as = map Some vs"
      using vs by simp
    ultimately have n4: "map (datum h') as = map Some vs"
      by (rule trans)
    have sel: "store l' = h'" "head l' = Some b" "tail l' = tail l" "count l' = count l - 1"
      by (simp_all add: l'_def)
    have "distinct as" using d by simp
    moreover have "count l' = of_nat (length as)" using c sel by simp
    ultimately have "repr l' as vs"
      unfolding repr_def linked_def sel using n1 n2 n3 n4 by blast
    with res show ?thesis by blast
  qed
qed


lemma seg_head_not_None: "seg f h p as q \<Longrightarrow> as \<noteq> [] \<Longrightarrow> p \<noteq> None"
  by (cases as) auto

lemma pop_back_repr:
  assumes "repr l (as @ [a]) (vs @ [v])"
  shows "\<exists>l'. pop_back l = Return v l' \<and> repr l' as vs"
proof -
  from assms have tl: "tail l = Some a"
    and sn: "seg next (store l) (head l) (as @ [a]) None"
    and sp: "seg prev (store l) (tail l) (a # rev as) None"
    and d: "distinct (as @ [a])" and c: "count l = of_nat (length (as @ [a]))" 
    and lv: "live (store l) = set (as @ [a])"
    and vs: "map (datum (store l)) (as @ [a]) = map Some (vs @ [v])"
    by (auto simp: repr_def linked_def)
  from sn obtain nd where nd: "load (store l) (Some a) = Some nd" "next nd = None"
    by (auto simp: seg_snoc)
  from vs nd have v: "data nd = v" by (simp add: datum_def)
  from sn have hn: "head l \<noteq> None" by (rule seg_head_not_None) simp
  show ?thesis
  proof (cases as rule: rev_cases)
    case Nil
    with sp nd have pv: "prev nd = None" by simp
    with sn Nil have hd: "head l = Some a" by simp
    define l' where "l' = l\<lparr>head := None, tail := None, store := (store l)[a := None],
                         count := count l - 1\<rparr>"
    have res: "pop_back l = Return v l'"
      using removeNode_only [OF hn nd(1) nd(2) pv] tl v by (simp add: pop_back_def l'_def)
    have "repr l' [] []"
      using lv c Nil by (simp add: repr_def linked_def l'_def live_release)
    with res Nil vs show ?thesis by auto
  next
    case (snoc cs b)
    with sp nd have pv: "prev nd = Some b" by (simp split: option.splits)
    from sp snoc obtain nb where nb: "load (store l) (Some b) = Some nb"
      by (auto split: option.splits)
    from d snoc have ab: "a \<noteq> b" by auto
    define h' where "h' = (store l)[b := Some (nb\<lparr>next := None\<rparr>), a := None]"
    define l' where "l' = l\<lparr>tail := Some b, store := h', count := count l - 1\<rparr>"
    have res: "pop_back l = Return v l'"
      using removeNode_last [OF hn nd(1) nd(2) pv nb ab] tl v
      by (simp add: pop_back_def l'_def h'_def)
    have ld: "\<And>c. load h' (Some c) = (if c = a then None
         else if c = b then Some (nb\<lparr>next := None\<rparr>) else load (store l) (Some c))"
      using ab load_bound [OF nd(1)] load_bound [OF nb]
      by (auto simp: h'_def load_update)
    have na: "a \<notin> set as" "b \<notin> set cs" using d snoc by auto
    have "seg prev (store l) (Some b) (rev as) None"
      using sp tl nd pv by simp
    then have n1: "seg prev h' (Some b) (rev as) None"
      using na by (subst seg_cong [where h = "store l"]) (auto simp: ld nb)
    have "seg next (store l) (head l) cs (Some b)"
      using sn snoc by (auto simp: seg_append split: option.splits)
    then have "seg next h' (head l) cs (Some b)"
      using na snoc by (subst seg_cong [where h = "store l"]) (auto simp: ld)
    then have n2: "seg next h' (head l) as None"
      using ab by (auto simp: snoc seg_append ld)
    have n3: "live h' = set as"
      using lv na nb snoc by (auto simp: live_load ld)
    have "map (datum h') as = map (datum (store l)) as"
      using na nb by (auto simp: datum_def ld)
    moreover have "map (datum (store l)) as = map Some vs"
      using vs by simp
    ultimately have n4: "map (datum h') as = map Some vs"
      by (rule trans)
    have sel: "store l' = h'" "head l' = head l" "tail l' = Some b" "count l' = count l - 1"
      by (simp_all add: l'_def)
    have "distinct as" using d by simp
    moreover have "count l' = of_nat (length as)" using c sel by simp
    ultimately have "repr l' as vs"
      unfolding repr_def linked_def sel using n1 n2 n3 n4 by blast
    with res show ?thesis by blast
  qed
qed

subsection \<open>Clearing, traversing and reading the ends\<close>

lemma delete_node_seg:
  assumes "seg next h p as None" and "distinct as"
  shows "\<exists>h'. delete_node p h = Some (h', length as) \<and> live h' = live h - set as"
  using assms
proof (induction as arbitrary: p h)
  case Nil
  then show ?case by (simp add: delete_node.simps [of None])
next
  case (Cons a as)
  from Cons.prems obtain nd where p: "p = Some a" and nd: "load h (Some a) = Some nd"
    and sg: "seg next h (next nd) as None"
    by (auto split: option.splits)
  from Cons.prems have na: "a \<notin> set as" and d: "distinct as" by auto
  have "seg next (h[a := None]) (next nd) as None"
    using sg na by (subst seg_cong [where h = h]) (auto simp: load_update)
  from Cons.IH [OF this d] obtain h' where
    h': "delete_node (next nd) (h[a := None]) = Some (h', length as)"
       "live h' = live (h[a := None]) - set as"
    by blast
  have "delete_node p h = Some (h', length (a # as))"
    using p nd h'(1) by (simp add: delete_node.simps [of "Some a"])
  moreover have "live h' = live h - set (a # as)"
    using h'(2) by (auto simp: live_release)
  ultimately show ?case by blast
qed

lemma clear_repr:
  assumes "repr l as vs"
  shows "\<exists>l'. clear l = Return () l' \<and> repr l' [] [] \<and> clear_depth l = Some (length as)"
proof -
  from assms have sn: "seg next (store l) (head l) as None" and d: "distinct as"
    and lv: "live (store l) = set as"
    by (auto simp: repr_def linked_def)
  from delete_node_seg [OF sn d] obtain h' where
    h': "delete_node (head l) (store l) = Some (h', length as)" "live h' = live (store l) - set as"
    by blast
  then show ?thesis
    using lv by (simp add: clear_def clear_depth_def repr_def linked_def)
qed

lemma traverse_seg:
  assumes step: "\<And>p. step h (Iter p) = (case load h p of None \<Rightarrow> None | Some nd \<Rightarrow> Some (Iter (f nd)))"
    and "seg f h p as None" and "map (datum h) as = map Some vs"
  shows "traverse step h (Iter p) (Iter None) acc = Some (Some (acc @ vs))"
  using assms(2,3)
proof (induction as arbitrary: p vs acc)
  case Nil
  then show ?case by (simp add: traverse.simps [of _ _ "Iter None"])
next
  case (Cons a as)
  from Cons.prems obtain nd where p: "p = Some a" and nd: "load h (Some a) = Some nd"
    and sg: "seg f h (f nd) as None"
    by (auto split: option.splits)
  from Cons.prems(2) obtain w ws where "vs = w # ws" and w: "datum h a = Some w"
    and ws: "map (datum h) as = map Some ws"
    by (cases vs) auto
  with nd have vs: "vs = data nd # ws" by (simp add: datum_def)
  have "traverse step h (Iter (f nd)) (Iter None) (acc @ [data nd]) = Some (Some ((acc @ [data nd]) @ ws))"
    by (rule Cons.IH [OF sg ws])
  then show ?case
    using p nd vs by (subst traverse.simps) (simp add: step)
qed

lemma forward_traversal_repr:
  "repr l as vs \<Longrightarrow> forward_traversal l = Some (Some vs)"
  using traverse_seg [where step = it_inc and f = "next" and h = "store l" and p = "head l"
      and as = as and vs = vs and acc = "[]"]
  by (simp add: forward_traversal_def begin_it_def end_it_def repr_def linked_def)

lemma backward_traversal_repr:
  assumes "repr l as vs"
  shows "backward_traversal l = Some (Some (rev vs))"
proof -
  from assms have sp: "seg prev (store l) (tail l) (rev as) None"
    and "map (datum (store l)) as = map Some vs"
    by (simp_all add: repr_def linked_def)
  then have "rev (map (datum (store l)) as) = rev (map Some vs)" by simp
  then have "map (datum (store l)) (rev as) = map Some (rev vs)" by (simp only: rev_map)
  with sp have "traverse it_dec (store l) (Iter (tail l)) (Iter None) [] = Some (Some ([] @ rev vs))"
    by (intro traverse_seg [where f = prev]) simp_all
  then show ?thesis by (simp add: backward_traversal_def rbegin_def rend_def)
qed

lemma repr_length: "repr l as vs \<Longrightarrow> length vs = length as"
  by (auto simp: repr_def dest: arg_cong [where f = length])

lemma repr_head: "repr l as vs \<Longrightarrow> (head l = None) = (vs = [])"
  by (cases as) (auto simp: repr_def linked_def)

lemma repr_tail: "repr l as vs \<Longrightarrow> (tail l = None) = (vs = [])"
  by (cases as rule: rev_cases) (auto simp: repr_def linked_def)

lemma repr_count: "repr l as vs \<Longrightarrow> count l = of_nat (length vs)"
  using repr_length [of l as vs] by (simp add: repr_def linked_def)

lemma sint_of_nat_small:
  assumes "n < 2 ^ 31"
  shows "sint (of_nat n :: 32 word) = int n"
proof -
  have "sint (of_nat n :: 32 word) = signed_take_bit 31 (int n)"
    by (simp add: signed_of_nat)
  also have "\<dots> = int n"
    using assms by (simp add: signed_take_bit_int_eq_self)
  finally show ?thesis .
qed

lemma repr_count_value:
  "repr l as vs \<Longrightarrow> length vs < 2 ^ 31 \<Longrightarrow> count_value l = int (length vs)"
  by (simp add: count_value_def repr_count sint_of_nat_small)

lemma repr_size: "repr l as vs \<Longrightarrow> length vs < 2 ^ 31 \<Longrightarrow> size_ll l = length vs"
  by (simp add: size_ll_def repr_count_value)





lemma repr_empty: "repr l as vs \<Longrightarrow> empty_ll l = (vs = [])"
  by (simp add: empty_ll_def repr_head)

lemma repr_new: "repr LinkedList_new [] []"
  by (simp add: repr_def linked_def LinkedList_new_def live_def)

lemma front_repr: "repr l (a # as) (v # vs) \<Longrightarrow> front l = Return v l"
  by (auto simp: repr_def linked_def front_def datum_def split: option.splits)

lemma back_repr: "repr l (as @ [a]) (vs @ [v]) \<Longrightarrow> back_ll l = Return v l"
  by (auto simp: repr_def linked_def back_ll_def datum_def split: option.splits)

subsection \<open>Runs of operations and reachable states\<close>

lemma pop_empty:
  assumes "repr l as []"
  shows "pop_front l = Raise (runtime_error ''cannot remove from empty list'') l"
    and "pop_back l = Raise (runtime_error ''cannot remove from empty list'') l"
  using repr_head [OF assms] by (simp_all add: pop_front_def pop_back_def removeNode_def)

lemma read_empty:
  assumes "repr l as []"
  shows "front l = Raise (runtime_error ''list is empty'') l"
    and "back_ll l = Raise (runtime_error ''list is empty'') l"
  using repr_head [OF assms] repr_tail [OF assms] by (simp_all add: front_def back_ll_def)

lemma repr_Cons:
  assumes "repr l as (v # vs)"
  obtains a bs where "as = a # bs"
  using repr_length [OF assms] by (cases as) auto

lemma repr_snoc:
  assumes "repr l as (vs @ [v])"
  obtains a bs where "as = bs @ [a]"
  using repr_length [OF assms] by (cases as rule: rev_cases) auto

lemma apply_op_repr:
  assumes "repr l as vs" and "is_pop x \<longrightarrow> vs \<noteq> []"
  shows "\<exists>l' as'. apply_op x l = Return () l' \<and> repr l' as' (effect x vs)"
proof (cases x)
  case (Push_front v)
  with push_front_repr [OF assms(1), of v] show ?thesis by auto
next
  case (Push_back v)
  with push_back_repr [OF assms(1), of v] show ?thesis by auto
next
  case Pop_front
  with assms(2) obtain v ws where vs: "vs = v # ws" by (cases vs) auto
  with assms(1) obtain a bs where "as = a # bs" by (auto elim: repr_Cons)
  with assms(1) vs have "repr l (a # bs) (v # ws)" by simp
  from pop_front_repr [OF this] Pop_front vs show ?thesis by auto
next
  case Pop_back
  with assms(2) obtain v ws where vs: "vs = ws @ [v]" by (cases vs rule: rev_cases) auto
  with assms(1) obtain a bs where "as = bs @ [a]" by (auto elim: repr_snoc)
  with assms(1) vs have "repr l (bs @ [a]) (ws @ [v])" by simp
  from pop_back_repr [OF this] Pop_back vs show ?thesis by auto
next
  case Clear
  with clear_repr [OF assms(1)] show ?thesis by auto
qed

lemma apply_op_raise:
  assumes "repr l as []" and "is_pop x"
  shows "apply_op x l = Raise (runtime_error ''cannot remove from empty list'') l"
  using assms(2) pop_empty [OF assms(1)] by (cases x) simp_all

lemma apply_op_cases:
  assumes "repr l as vs"
  shows "(\<exists>l' as'. apply_op x l = Return () l' \<and> repr l' as' (effect x vs) \<and> \<not> (is_pop x \<and> vs = [])) \<or>
         (apply_op x l = Raise (runtime_error ''cannot remove from empty list'') l \<and> is_pop x \<and> vs = [])"
proof (cases "is_pop x \<and> vs = []")
  case True
  with assms apply_op_raise [of l as x] show ?thesis by simp
next
  case False
  with apply_op_repr [OF assms, of x] show ?thesis by auto
qed

lemma reachable_repr: "reachable l \<Longrightarrow> \<exists>as vs. repr l as vs"
proof (induction rule: reachable.induct)
  case reachable_new
  show ?case using repr_new by blast
next
  case (reachable_return l x u l')
  then obtain as vs where r: "repr l as vs" by blast
  from apply_op_cases [OF r, of x] reachable_return.hyps(2) show ?case by auto
next
  case (reachable_raise l x e l')
  then obtain as vs where r: "repr l as vs" by blast
  from apply_op_cases [OF r, of x] reachable_raise.hyps(2) show ?case using r by auto
qed



lemma reachable_run:
  assumes "reachable l" and "run xs l = Return u l'"
  shows "reachable l'"
  using assms
proof (induction xs arbitrary: l)
  case Nil
  then show ?case by simp
next
  case (Cons x xs)
  then show ?case
    by (cases "apply_op x l") (auto intro: reachable_return)
qed


subsection \<open>Consequences of the shape\<close>









subsection \<open>The example lists are reachable\<close>

lemmas op_defs = push_back_def push_front_def pop_front_def pop_back_def addAfter_def
  addBefore_def removeNode_def new_Node_def write_next_def write_prev_def load_def
  LinkedList_new_def clear_def clear_depth_def delete_node.simps Let_def

lemma run_two_list: "run [Push_back 10, Push_back 20] LinkedList_new = Return () two_list"
  by (simp add: op_defs two_list_def)

lemma reachable_two_list: "reachable two_list"
  using reachable_run [OF reachable_new run_two_list] .

lemma run_three_list:
  "run [Push_back 1, Push_back 2, Push_back 3] LinkedList_new = Return () three_list"
  by (simp add: op_defs three_list_def)

lemma reachable_three_list: "reachable three_list"
  using reachable_run [OF reachable_new run_three_list] .


subsection \<open>Reading and popping a list that is not empty\<close>

lemma repr_nonempty_returns:
  assumes "repr l as vs" and "vs \<noteq> []"
  shows "front l = Return (hd vs) l" and "back_ll l = Return (last vs) l"
    and "\<exists>l'. pop_front l = Return (hd vs) l'" and "\<exists>l'. pop_back l = Return (last vs) l'"
proof -
  from assms(2) obtain v ws where c: "vs = v # ws" by (cases vs) auto
  with assms(1) obtain a bs where "as = a # bs" by (auto elim: repr_Cons)
  with assms(1) c have r1: "repr l (a # bs) (v # ws)" by simp
  from assms(2) obtain w us where s: "vs = us @ [w]" by (cases vs rule: rev_cases) auto
  with assms(1) obtain b cs where "as = cs @ [b]" by (auto elim: repr_snoc)
  with assms(1) s have r2: "repr l (cs @ [b]) (us @ [w])" by simp
  show "front l = Return (hd vs) l" using front_repr [OF r1] c by simp
  show "back_ll l = Return (last vs) l" using back_repr [OF r2] s by simp
  show "\<exists>l'. pop_front l = Return (hd vs) l'" using pop_front_repr [OF r1] c by auto
  show "\<exists>l'. pop_back l = Return (last vs) l'" using pop_back_repr [OF r2] s by auto
qed


subsection \<open>What the queries see, and clearing an empty list\<close>

lemma observe_repr:
  assumes "repr l as vs" and "length vs < 2 ^ 31"
  shows "observe l =
     (length vs, vs = [], Some (Some vs), Some (Some (rev vs)),
      (if vs = [] then Some (Inl (runtime_error ''list is empty'')) else Some (Inr (hd vs))),
      (if vs = [] then Some (Inl (runtime_error ''list is empty'')) else Some (Inr (last vs))))"
proof (cases "vs = []")
  case True
  with assms have e: "repr l as []" by simp
  from read_empty [OF e] repr_size [OF e] repr_empty [OF e]
    forward_traversal_repr [OF e] backward_traversal_repr [OF e] True
  show ?thesis by (simp add: observe_def)
next
  case False
  from repr_nonempty_returns(1,2) [OF assms(1) False] repr_size [OF assms] repr_empty [OF assms(1)]
    forward_traversal_repr [OF assms(1)] backward_traversal_repr [OF assms(1)] False
  show ?thesis by (simp add: observe_def)
qed

lemma clear_empty:
  assumes "repr l as []"
  shows "clear l = Return () l"
proof -
  from repr_head [OF assms] repr_tail [OF assms] repr_count [OF assms]
  have "head l = None" "tail l = None" "count l = 0" by simp_all
  then show ?thesis by (simp add: clear_def delete_node.simps [of None])
qed

subsection \<open>Long lists\<close>






section \<open>The claims\<close>










text \<open>
  Claim C4. In every reachable state and for every value \<open>v\<close>, \<^verbatim>\<open>push_back(v)\<close>
  followed immediately by \<^verbatim>\<open>pop_back()\<close> returns \<open>v\<close> and leaves \<^verbatim>\<open>size()\<close> as it was
  before the push; likewise \<^verbatim>\<open>push_front(v)\<close> followed by \<^verbatim>\<open>pop_front()\<close>.
\<close>

theorem C4_push_pop_roundtrip:
  assumes "reachable l"
  shows "(\<exists>l1 l2. push_back v l = Return () l1 \<and> pop_back l1 = Return v l2 \<and>
                   size_ll l2 = size_ll l) \<and>
         (\<exists>l1 l2. push_front v l = Return () l1 \<and> pop_front l1 = Return v l2 \<and>
                   size_ll l2 = size_ll l)"
proof -
  from assms obtain as vs where r: "repr l as vs" by (auto dest: reachable_repr)
  from push_back_repr [OF r, of v] obtain l1 where
    b1: "push_back v l = Return () l1" and rb: "repr l1 (as @ [length (store l)]) (vs @ [v])"
    by blast
  from pop_back_repr [OF rb] obtain l2 where
    b2: "pop_back l1 = Return v l2" and rb2: "repr l2 as vs"
    by blast
  from push_front_repr [OF r, of v] obtain l3 where
    f1: "push_front v l = Return () l3" and rf: "repr l3 (length (store l) # as) (v # vs)"
    by blast
  from pop_front_repr [OF rf] obtain l4 where
    f2: "pop_front l3 = Return v l4" and rf2: "repr l4 as vs"
    by blast
  have "size_ll l2 = size_ll l" "size_ll l4 = size_ll l"
    using repr_count [OF r] repr_count [OF rb2] repr_count [OF rf2]
    by (simp_all add: size_ll_def count_value_def)
  with b1 b2 f1 f2 show ?thesis by simp
qed

theorem C4_push_pop_roundtrip_witness:
  "reachable two_list \<and>
   (\<exists>l1 l2. push_back 7 two_list = Return () l1 \<and> pop_back l1 = Return 7 l2 \<and>
             size_ll l2 = size_ll two_list) \<and>
   (\<exists>l1 l2. push_front 7 two_list = Return () l1 \<and> pop_front l1 = Return 7 l2 \<and>
             size_ll l2 = size_ll two_list)"
  using C4_push_pop_roundtrip [OF reachable_two_list, of 7] reachable_two_list by simp




text \<open>
  Claim C6. In every reachable state, \<^verbatim>\<open>clear()\<close> returns and leaves a list with
  \<^verbatim>\<open>size()\<close> 0, \<^verbatim>\<open>empty()\<close> true and \<^verbatim>\<open>head\<close> and \<^verbatim>\<open>tail\<close> null, and a \<^verbatim>\<open>push_back\<close>
  that follows behaves as on a newly constructed list: it returns, every public query
  answers as it does after the same \<^verbatim>\<open>push_back\<close> on a new list, and the list is one
  node with null links that is both head and tail.
\<close>

theorem C6_clear_resets:
  assumes "reachable l"
  shows "\<exists>l'. clear l = Return () l' \<and> size_ll l' = 0 \<and> empty_ll l' \<and>
              head l' = None \<and> tail l' = None \<and>
              (\<forall>v. \<exists>l1 l2. push_back v l' = Return () l1 \<and>
                     push_back v LinkedList_new = Return () l2 \<and>
                     observe l1 = observe l2 \<and> count l1 = count l2 \<and>
                     head l1 = tail l1 \<and>
                     load (store l1) (head l1) = Some \<lparr>data = v, next = None, prev = None\<rparr> \<and>
                     load (store l2) (head l2) = Some \<lparr>data = v, next = None, prev = None\<rparr>)"
proof -
  from assms obtain as vs where r: "repr l as vs" by (auto dest: reachable_repr)
  from clear_repr [OF r] obtain l' where c: "clear l = Return () l'" and e: "repr l' [] []"
    by blast
  have t: "tail l' = None" "head l' = None" using repr_tail [OF e] repr_head [OF e] by simp_all
  have push: "\<exists>l1 l2. push_back v l' = Return () l1 \<and>
                     push_back v LinkedList_new = Return () l2 \<and>
                     observe l1 = observe l2 \<and> count l1 = count l2 \<and>
                     head l1 = tail l1 \<and>
                     load (store l1) (head l1) = Some \<lparr>data = v, next = None, prev = None\<rparr> \<and>
                     load (store l2) (head l2) = Some \<lparr>data = v, next = None, prev = None\<rparr>" for v
  proof -
    from push_back_repr [OF e, of v] obtain l1 where
      p1: "push_back v l' = Return () l1" and r1: "repr l1 [length (store l')] [v]"
      by auto
    from push_back_repr [OF repr_new, of v] obtain l2 where
      p2: "push_back v LinkedList_new = Return () l2"
      and r2: "repr l2 [length (store (LinkedList_new :: 'a LinkedList))] [v]"
      by auto
    have o: "observe l1 = observe l2" by (simp add: observe_repr [OF r1] observe_repr [OF r2])
    have c: "count l1 = count l2" by (simp add: repr_count [OF r1] repr_count [OF r2])
    from p1 t have x1: "head l1 = tail l1"
      "load (store l1) (head l1) = Some \<lparr>data = v, next = None, prev = None\<rparr>"
      by (auto simp: push_back_def addAfter_null load_append1)
    from p2 have x2: "load (store l2) (head l2) = Some \<lparr>data = v, next = None, prev = None\<rparr>"
      by (auto simp: push_back_def addAfter_null LinkedList_new_def load_def)
    from p1 p2 o c x1 x2 show ?thesis by blast
  qed
  from c t repr_size [OF e] repr_empty [OF e] push show ?thesis by auto
qed

theorem C6_clear_resets_witness:
  "reachable two_list \<and>
   (\<exists>l'. clear two_list = Return () l' \<and> size_ll l' = 0 \<and> empty_ll l' \<and>
         head l' = None \<and> tail l' = None \<and>
         (\<exists>l1 l2. push_back 5 l' = Return () l1 \<and> push_back 5 LinkedList_new = Return () l2 \<and>
                   observe l1 = observe l2))"
proof -
  from C6_clear_resets [OF reachable_two_list] have
    "\<exists>l'. clear two_list = Return () l' \<and> size_ll l' = 0 \<and> empty_ll l' \<and>
         head l' = None \<and> tail l' = None \<and>
         (\<exists>l1 l2. push_back 5 l' = Return () l1 \<and> push_back 5 LinkedList_new = Return () l2 \<and>
                   observe l1 = observe l2)"
    by blast
  with reachable_two_list show ?thesis by blast
qed

text \<open>
  Claim C7. \<^verbatim>\<open>clear()\<close> (and the destructor of the list, which calls it) is to release
  the chain of nodes iteratively, with no recursion that goes one call deeper for each
  node. The code does not: \<^verbatim>\<open>clear()\<close> is \<^verbatim>\<open>delete head\<close>, and the destructor of a node
  runs \<^verbatim>\<open>delete next\<close>, so the destructor calls nest one inside the other, one for each
  node. The loop that would release the nodes one by one stands commented out in
  \<^verbatim>\<open>clear()\<close>. On the two example lists the depth of nested destructor calls is 2 for
  two nodes and 3 for three.
\<close>

theorem C7_destructor_depth:
  "size_ll two_list = 2 \<and> clear_depth two_list = Some 2 \<and>
   size_ll three_list = 3 \<and> clear_depth three_list = Some 3"
  by (simp add: op_defs size_ll_def count_value_def two_list_def three_list_def)

text \<open>
  Claim C8. In every state, \<^verbatim>\<open>begin() == end()\<close> if and only if the list is empty, where
  two iterators are equal iff both are the sentinel or both address the same node;
  \<^verbatim>\<open>begin()\<close> addresses the head node and \<^verbatim>\<open>end()\<close> is the sentinel.
\<close>

theorem C8_begin_end:
  "it_eq (begin_it l) (end_it l) = empty_ll l \<and>
   begin_it l = Iter (head l) \<and> end_it l = Iter None \<and>
   it_eq (Iter p) (Iter q) = (p = None \<and> q = None \<or> (\<exists>a. p = Some a \<and> q = Some a))"
  by (cases "head l"; cases p) (auto simp: begin_it_def end_it_def empty_ll_def)

text \<open>
  Claim C9. On every reachable list that is not empty, \<^verbatim>\<open>push_front(v)\<close> leaves the
  tail node and the value of \<^verbatim>\<open>back()\<close> unchanged, and \<^verbatim>\<open>push_back(v)\<close> leaves the head
  node and the value of \<^verbatim>\<open>front()\<close> unchanged; only the end where the node is inserted
  is modified: every old node other than the old head (the old tail) is as it was, and
  the old head (the old tail) changes in its \<^verbatim>\<open>prev\<close> (its \<^verbatim>\<open>next\<close>) link only, which
  now addresses the new node.
\<close>

theorem C9_push_frame:
  assumes "reachable l" and "\<not> empty_ll l"
  shows "(\<exists>l'. push_front v l = Return () l' \<and> tail l' = tail l \<and>
               result (back_ll l') = result (back_ll l) \<and>
               (\<exists>nt nt'. load (store l) (tail l) = Some nt \<and>
                     load (store l') (tail l') = Some nt' \<and>
                     data nt' = data nt \<and> next nt' = next nt) \<and>
               (\<forall>a. a < length (store l) \<and> Some a \<noteq> head l \<longrightarrow>
                    load (store l') (Some a) = load (store l) (Some a)) \<and>
               (\<exists>nd. load (store l) (head l) = Some nd \<and>
                     load (store l') (head l) = Some (nd\<lparr>prev := head l'\<rparr>))) \<and>
         (\<exists>l'. push_back v l = Return () l' \<and> head l' = head l \<and>
               result (front l') = result (front l) \<and>
               (\<exists>nh nh'. load (store l) (head l) = Some nh \<and>
                     load (store l') (head l') = Some nh' \<and>
                     data nh' = data nh \<and> prev nh' = prev nh) \<and>
               (\<forall>a. a < length (store l) \<and> Some a \<noteq> tail l \<longrightarrow>
                    load (store l') (Some a) = load (store l) (Some a)) \<and>
               (\<exists>nd. load (store l) (tail l) = Some nd \<and>
                     load (store l') (tail l) = Some (nd\<lparr>next := tail l'\<rparr>)))"
proof -
  from assms(1) obtain as vs where r: "repr l as vs" by (auto dest: reachable_repr)
  from assms(2) repr_empty [OF r] have ne: "vs \<noteq> []" by simp
  from ne obtain v0 ws where "vs = v0 # ws" by (cases vs) auto
  with r obtain a bs where as1: "as = a # bs" by (auto elim: repr_Cons)
  from ne obtain w0 us where "vs = us @ [w0]" by (cases vs rule: rev_cases) auto
  with r obtain t cs where as2: "as = cs @ [t]" by (auto elim: repr_snoc)
  from r have sn: "seg next (store l) (head l) as None"
    and sp: "seg prev (store l) (tail l) (rev as) None"
    by (simp_all add: repr_def linked_def)
  from sn as1 have hd: "head l = Some a" by simp
  from sp as2 have tl: "tail l = Some t" by simp
  from sp as1 obtain nda where nda: "load (store l) (Some a) = Some nda" "prev nda = None"
    by (auto simp: seg_snoc)
  from sn as2 obtain ndt where ndt: "load (store l) (Some t) = Some ndt" "next ndt = None"
    by (auto simp: seg_snoc)
  have la: "a < length (store l)" and lt: "t < length (store l)"
    using nda(1) ndt(1) by (auto dest: load_bound)
  have pf: "\<exists>l'. push_front v l = Return () l' \<and> tail l' = tail l \<and>
               result (back_ll l') = result (back_ll l) \<and>
               (\<exists>nt nt'. load (store l) (tail l) = Some nt \<and>
                     load (store l') (tail l') = Some nt' \<and>
                     data nt' = data nt \<and> next nt' = next nt) \<and>
               (\<forall>a. a < length (store l) \<and> Some a \<noteq> head l \<longrightarrow>
                    load (store l') (Some a) = load (store l) (Some a)) \<and>
               (\<exists>nd. load (store l) (head l) = Some nd \<and>
                     load (store l') (head l) = Some (nd\<lparr>prev := head l'\<rparr>))"
  proof -
    from push_front_repr [OF r, of v] obtain l' where
      p: "push_front v l = Return () l'" and r': "repr l' (length (store l) # as) (v # vs)"
      by blast
    from p addBefore_first [OF nda, of v] hd
    have l': "l' = l\<lparr>store := (store l @ [Some \<lparr>data = v, next = Some a, prev = None\<rparr>])
                              [a := Some (nda\<lparr>prev := Some (length (store l))\<rparr>)],
                  head := Some (length (store l)), count := count l + 1\<rparr>"
      by (simp add: push_front_def)
    have b: "result (back_ll l') = result (back_ll l)"
      using repr_nonempty_returns(2) [OF r ne] repr_nonempty_returns(2) [OF r', simplified] ne
      by simp
    have f: "\<forall>b. b < length (store l) \<and> Some b \<noteq> head l \<longrightarrow>
                    load (store l') (Some b) = load (store l) (Some b)"
      using hd by (auto simp: l' load_update load_append1)
    have h: "load (store l') (head l) = Some (nda\<lparr>prev := head l'\<rparr>)"
      using hd la by (simp add: l' load_update)
    have g: "\<exists>nt nt'. load (store l) (tail l) = Some nt \<and>
                     load (store l') (tail l') = Some nt' \<and>
                     data nt' = data nt \<and> next nt' = next nt"
      using tl lt ndt(1) nda(1) by (auto simp: l' load_update load_append1)
    have t: "tail l' = tail l" by (simp add: l')
    have hl: "load (store l) (head l) = Some nda" using nda(1) hd by simp
    from p t b g f h hl show ?thesis by blast
  qed
  have pb: "\<exists>l'. push_back v l = Return () l' \<and> head l' = head l \<and>
               result (front l') = result (front l) \<and>
               (\<exists>nh nh'. load (store l) (head l) = Some nh \<and>
                     load (store l') (head l') = Some nh' \<and>
                     data nh' = data nh \<and> prev nh' = prev nh) \<and>
               (\<forall>a. a < length (store l) \<and> Some a \<noteq> tail l \<longrightarrow>
                    load (store l') (Some a) = load (store l) (Some a)) \<and>
               (\<exists>nd. load (store l) (tail l) = Some nd \<and>
                     load (store l') (tail l) = Some (nd\<lparr>next := tail l'\<rparr>))"
  proof -
    from push_back_repr [OF r, of v] obtain l' where
      p: "push_back v l = Return () l'" and r': "repr l' (as @ [length (store l)]) (vs @ [v])"
      by blast
    from p addAfter_last [OF ndt, of v] tl
    have l': "l' = l\<lparr>store := (store l @ [Some \<lparr>data = v, next = None, prev = Some t\<rparr>])
                              [t := Some (ndt\<lparr>next := Some (length (store l))\<rparr>)],
                  tail := Some (length (store l)), count := count l + 1\<rparr>"
      by (simp add: push_back_def)
    have b: "result (front l') = result (front l)"
      using repr_nonempty_returns(1) [OF r ne] repr_nonempty_returns(1) [OF r', simplified] ne
      by simp
    have f: "\<forall>b. b < length (store l) \<and> Some b \<noteq> tail l \<longrightarrow>
                    load (store l') (Some b) = load (store l) (Some b)"
      using tl by (auto simp: l' load_update load_append1)
    have h: "load (store l') (tail l) = Some (ndt\<lparr>next := tail l'\<rparr>)"
      using tl lt by (simp add: l' load_update)
    have g: "\<exists>nh nh'. load (store l) (head l) = Some nh \<and>
                     load (store l') (head l') = Some nh' \<and>
                     data nh' = data nh \<and> prev nh' = prev nh"
      using hd la ndt(1) nda(1) by (auto simp: l' load_update load_append1)
    have t: "head l' = head l" by (simp add: l')
    have hl: "load (store l) (tail l) = Some ndt" using ndt(1) tl by simp
    from p t b g f h hl show ?thesis by blast
  qed
  from pf pb show ?thesis by blast
qed

theorem C9_push_frame_witness:
  "reachable two_list \<and> \<not> empty_ll two_list \<and>
   (\<exists>l'. push_front 7 two_list = Return () l' \<and> tail l' = tail two_list \<and>
         result (back_ll l') = Some (Inr 20) \<and> result (back_ll two_list) = Some (Inr 20) \<and>
         load (store l') (Some 1) = load (store two_list) (Some 1)) \<and>
   (\<exists>l'. push_back 7 two_list = Return () l' \<and> head l' = head two_list \<and>
         result (front l') = Some (Inr 10) \<and> result (front two_list) = Some (Inr 10) \<and>
         load (store l') (Some 0) = load (store two_list) (Some 0))"
proof -
  have e: "\<not> empty_ll two_list" by (simp add: empty_ll_def two_list_def)
  have v: "result (back_ll two_list) = Some (Inr 20)" "result (front two_list) = Some (Inr 10)"
    "length (store two_list) = 2" "head two_list = Some 0" "tail two_list = Some 1"
    by (simp_all add: back_ll_def front_def two_list_def load_def)
  from C9_push_frame [OF reachable_two_list e, of 7] obtain l1 l2 where
    f: "push_front 7 two_list = Return () l1" "tail l1 = tail two_list"
      "result (back_ll l1) = result (back_ll two_list)"
      "\<forall>a. a < length (store two_list) \<and> Some a \<noteq> head two_list \<longrightarrow>
           load (store l1) (Some a) = load (store two_list) (Some a)"
    and b: "push_back 7 two_list = Return () l2" "head l2 = head two_list"
      "result (front l2) = result (front two_list)"
      "\<forall>a. a < length (store two_list) \<and> Some a \<noteq> tail two_list \<longrightarrow>
           load (store l2) (Some a) = load (store two_list) (Some a)"
    by blast
  from f(4) v have f1: "load (store l1) (Some 1) = load (store two_list) (Some 1)" by simp
  from b(4) v have b0: "load (store l2) (Some 0) = load (store two_list) (Some 0)" by simp
  from f(1-3) f1 b(1-3) b0 v e reachable_two_list show ?thesis by simp
qed

text \<open>
  Claim C10. \<^verbatim>\<open>clear()\<close> is idempotent: on a list that is already empty it returns
  without error and changes nothing, and after any \<^verbatim>\<open>clear()\<close> a second \<^verbatim>\<open>clear()\<close>
  returns and leaves the same valid empty state, with \<^verbatim>\<open>head\<close> and \<^verbatim>\<open>tail\<close> null and
  \<^verbatim>\<open>count\<close> 0.
\<close>

theorem C10_clear_idempotent:
  assumes "reachable l"
  shows "(\<exists>l'. clear l = Return () l' \<and> clear l' = Return () l' \<and>
               head l' = None \<and> tail l' = None \<and> count l' = 0 \<and> reachable l') \<and>
         (empty_ll l \<longrightarrow> clear l = Return () l)"
proof -
  from assms obtain as vs where r: "repr l as vs" by (auto dest: reachable_repr)
  from clear_repr [OF r] obtain l' where c: "clear l = Return () l'" and e: "repr l' [] []"
    by blast
  from c have "apply_op Clear l = Return () l'" by simp
  with assms have "reachable l'" by (rule reachable_return)
  with c clear_empty [OF e] repr_head [OF e] repr_tail [OF e] repr_count [OF e]
  have first: "\<exists>l'. clear l = Return () l' \<and> clear l' = Return () l' \<and>
               head l' = None \<and> tail l' = None \<and> count l' = 0 \<and> reachable l'"
    by auto
  have "clear l = Return () l" if "empty_ll l"
  proof -
    from that repr_empty [OF r] r have "repr l as []" by simp
    then show ?thesis by (rule clear_empty)
  qed
  with first show ?thesis by blast
qed

theorem C10_clear_idempotent_witness:
  "reachable (LinkedList_new :: nat LinkedList) \<and> empty_ll (LinkedList_new :: nat LinkedList) \<and>
   clear (LinkedList_new :: nat LinkedList) = Return () LinkedList_new \<and>
   head (LinkedList_new :: nat LinkedList) = None \<and>
   tail (LinkedList_new :: nat LinkedList) = None \<and>
   count (LinkedList_new :: nat LinkedList) = 0 \<and>
   reachable two_list \<and>
   (\<exists>l'. clear two_list = Return () l' \<and> clear l' = Return () l' \<and> count l' = 0)"
proof -
  have e: "empty_ll (LinkedList_new :: nat LinkedList)"
    by (simp add: empty_ll_def LinkedList_new_def)
  from C10_clear_idempotent [OF reachable_new, where 'a = nat] e
    C10_clear_idempotent [OF reachable_two_list] reachable_new reachable_two_list
  show ?thesis by (auto simp: LinkedList_new_def)
qed

end
